theory Spec2Isabelle
  imports Complex_Main
begin

section \<open>Decimal numbers of the scaling tool\<close>

text \<open>
  The tool computes with Python's \<^verbatim>\<open>decimal.Decimal\<close> under the default context:
  precision 28, rounding ROUND_HALF_EVEN, and the traps InvalidOperation and DivisionByZero
  enabled. A finite decimal is a signed
  coefficient and an exponent; its value is \<open>coeff * 10 ^ expo\<close>. The sign of a zero and
  the special values (NaN, infinities) are not represented: no operation below tells a
  negative zero from a positive one.
\<close>

datatype decimal = Dec (coeff: int) (expo: int)

definition val :: "decimal \<Rightarrow> rat" where
  "val d = (if 0 \<le> expo d then of_int (coeff d) * 10 ^ nat (expo d)
            else of_int (coeff d) / 10 ^ nat (- expo d))"

datatype error = InvalidOperation | DivisionByZero

definition prec :: nat where "prec = 28"

text \<open>The number of decimal digits of a coefficient (\<^verbatim>\<open>len(self._int)\<close>; zero has one digit).\<close>

fun ndigits :: "nat \<Rightarrow> nat" where
  "ndigits n = (if n < 10 then 1 else Suc (ndigits (n div 10)))"

declare ndigits.simps [simp del]

text \<open>Dropping the last \<open>k\<close> digits of a coefficient, rounding half to even.\<close>

definition round_half_even :: "nat \<Rightarrow> nat \<Rightarrow> nat" where
  "round_half_even n k =
     (let q = n div 10 ^ k; r = n mod 10 ^ k
      in if 10 ^ k < 2 * r \<or> (2 * r = 10 ^ k \<and> odd q) then q + 1 else q)"

text \<open>
  \<^verbatim>\<open>Decimal._fix\<close>: the rounding every arithmetic result goes through. A coefficient of
  more than 28 digits is cut to 28 digits, rounding half to even; when that carries into a
  29th digit, the coefficient loses one more digit. The exponent range of the context
  (Emax, Emin) is not modelled: exponents are unbounded integers, so Overflow and
  subnormal results do not occur.
\<close>

definition dec_fix :: "decimal \<Rightarrow> decimal" where
  "dec_fix d =
     (let c = coeff d; e = expo d; n = ndigits (nat \<bar>c\<bar>) in
      if c = 0 \<or> n \<le> prec then d
      else
        let k = n - prec; q = round_half_even (nat \<bar>c\<bar>) k in
        if prec < ndigits q then Dec (sgn c * int (q div 10)) (e + int k + 1)
        else Dec (sgn c * int q) (e + int k))"

text \<open>
  \<^verbatim>\<open>abs(d)\<close>, \<^verbatim>\<open>a * b\<close>, \<^verbatim>\<open>a + b\<close> and \<^verbatim>\<open>a - b\<close>: the exact result, then the context
  rounding. (For operands far apart the library shortens the smaller one before adding;
  the rounded result is the same.)
\<close>

definition dec_abs :: "decimal \<Rightarrow> decimal" where
  "dec_abs d = dec_fix (Dec \<bar>coeff d\<bar> (expo d))"

definition dec_mul :: "decimal \<Rightarrow> decimal \<Rightarrow> decimal" where
  "dec_mul a b = dec_fix (Dec (coeff a * coeff b) (expo a + expo b))"






text \<open>
  \<^verbatim>\<open>d.quantize(Decimal("0.001"), rounding=ROUND_DOWN)\<close>: the exponent becomes -3 and the
  digits below it are cut off (\<^verbatim>\<open>_rescale\<close>). It raises InvalidOperation when the result
  would have more than 28 digits.
\<close>

definition rescale_down :: "decimal \<Rightarrow> int \<Rightarrow> decimal" where
  "rescale_down d ex =
     (if ex \<le> expo d then Dec (coeff d * 10 ^ nat (expo d - ex)) ex
      else Dec (sgn (coeff d) * int (nat \<bar>coeff d\<bar> div 10 ^ nat (ex - expo d))) ex)"

definition quantize_down3 :: "decimal \<Rightarrow> error + decimal" where
  "quantize_down3 d =
     (if coeff d = 0 then Inr (dec_fix (Dec 0 (- 3)))
      else
        let adjusted = expo d + int (ndigits (nat \<bar>coeff d\<bar>)) - 1 in
        if int prec < adjusted - (- 3) + 1 then Inl InvalidOperation
        else
          let ans = rescale_down d (- 3) in
          if prec < ndigits (nat \<bar>coeff ans\<bar>) then Inl InvalidOperation
          else Inr (dec_fix ans))"

text \<open>
  Comparisons with zero (\<^verbatim>\<open>d > 0\<close>, \<^verbatim>\<open>d < 0\<close>, \<^verbatim>\<open>d == 0\<close>) are exact and look at
  the coefficient only.
\<close>

definition dec_pos :: "decimal \<Rightarrow> bool" where
  "dec_pos d = (0 < coeff d)"

definition dec_neg :: "decimal \<Rightarrow> bool" where
  "dec_neg d = (coeff d < 0)"


section \<open>The API's dictionaries\<close>

text \<open>
  A numeric entry of an API dictionary is passed to the constructor \<^verbatim>\<open>Decimal(...)\<close>, which
  either returns a decimal without rounding or raises InvalidOperation. An entry is
  modelled by what the constructor makes of it; a missing key is \<open>None\<close>.
\<close>

datatype numfield = Valid decimal | Malformed

definition Decimal_of :: "numfield \<Rightarrow> error + decimal" where
  "Decimal_of v = (case v of Valid d \<Rightarrow> Inr d | Malformed \<Rightarrow> Inl InvalidOperation)"

text \<open>\<^verbatim>\<open>Decimal(d.get(key, "0"))\<close>\<close>

definition get_decimal :: "numfield option \<Rightarrow> error + decimal" where
  "get_decimal f = (case f of None \<Rightarrow> Inr (Dec 0 0) | Some v \<Rightarrow> Decimal_of v)"

record coin_dict =
  coin :: "string option"

record position = coin_dict +
  szi :: "numfield option"
  entryPx :: "numfield option"

record asset_position =
  position :: "position option"


text \<open>An open order; \<open>side_raw\<close> is the entry under the key \<^verbatim>\<open>"side"\<close>.\<close>

record order = coin_dict +
  sz :: "numfield option"
  limitPx :: "numfield option"
  side_raw :: "string option"
  timestamp :: "int option"


record scaled_order =
  side :: string
  price :: decimal
  original_size :: decimal
  scaled_size :: decimal
  notional :: decimal



section \<open>Extraction, direction and position size\<close>





definition determine_position_direction :: "position \<Rightarrow> error + string option" where
  "determine_position_direction p =
     (case get_decimal (szi p) of
        Inl e \<Rightarrow> Inl e
      | Inr sz0 \<Rightarrow>
          if dec_pos sz0 then Inr (Some ''long'')
          else if dec_neg sz0 then Inr (Some ''short'')
          else Inr None)"


section \<open>The order scaler\<close>

text \<open>The body of the loop of \<^verbatim>\<open>scale_orders\<close>, in the order the source evaluates it.\<close>

definition scale_order :: "order \<Rightarrow> decimal \<Rightarrow> error + scaled_order" where
  "scale_order order ratio =
     (case get_decimal (sz order) of
        Inl e \<Rightarrow> Inl e
      | Inr d \<Rightarrow>
          let original = dec_abs d in
          (case get_decimal (limitPx order) of
             Inl e \<Rightarrow> Inl e
           | Inr px \<Rightarrow>
               let sd = (case side_raw order of None \<Rightarrow> [] | Some s \<Rightarrow> s) in
               (case quantize_down3 (dec_mul original ratio) of
                  Inl e \<Rightarrow> Inl e
                | Inr scaled \<Rightarrow>
                    Inr \<lparr>side = sd, price = px, original_size = original,
                         scaled_size = scaled, notional = dec_mul scaled px\<rparr>)))"


section \<open>The projections\<close>





section \<open>The activity timestamp reducer\<close>






section \<open>The report\<close>
















section \<open>The relative-time buckets as the specification words them\<close>




section \<open>Truncation and exactness as the specification words them\<close>

text \<open>
  \<open>floor3 x\<close> is \<open>x\<close> cut off after the third decimal place, as a decimal with exponent
  -3. \<open>fits_prec x\<close> says that \<open>x\<close> can be written with at most 28 significant digits, which
  is what the arithmetic of the context keeps.
\<close>

definition floor3 :: "rat \<Rightarrow> decimal" where
  "floor3 x = Dec \<lfloor>x * 1000\<rfloor> (- 3)"

definition fits_prec :: "rat \<Rightarrow> bool" where
  "fits_prec x \<longleftrightarrow> (\<exists>c e. \<bar>c\<bar> < 10 ^ 28 \<and> x = of_int c * 10 powi e)"

section \<open>Values and signs\<close>

lemma val_pos_iff: "0 < val d \<longleftrightarrow> 0 < coeff d"
  by (simp add: val_def zero_less_mult_iff zero_less_divide_iff)

lemma val_neg_iff: "val d < 0 \<longleftrightarrow> coeff d < 0"
  by (simp add: val_def mult_less_0_iff divide_less_0_iff)

lemma val_zero_iff: "val d = 0 \<longleftrightarrow> coeff d = 0"
  by (simp add: val_def)

section \<open>The direction deriver\<close>

text \<open>
  Claim C4. For every decimal position size, the direction deriver answers long exactly when
  the signed size is strictly greater than zero, short exactly when it is strictly less
  than zero, and no direction exactly when it is zero.
\<close>

theorem determine_position_direction_classifies:
  assumes "szi p = Some (Valid d)"
  shows "(determine_position_direction p = Inr (Some ''long'') \<longleftrightarrow> 0 < val d)
       \<and> (determine_position_direction p = Inr (Some ''short'') \<longleftrightarrow> val d < 0)
       \<and> (determine_position_direction p = Inr None \<longleftrightarrow> val d = 0)"
  using assms
  by (auto simp: determine_position_direction_def get_decimal_def Decimal_of_def
        dec_pos_def dec_neg_def val_pos_iff val_neg_iff val_zero_iff)

theorem determine_position_direction_classifies_witness:
  "determine_position_direction
       \<lparr>coin = Some ''BTC'', szi = Some (Valid (Dec (- 5) (- 1))), entryPx = None\<rparr>
     = Inr (Some ''short'')
   \<and> val (Dec (- 5) (- 1)) < 0"
  using determine_position_direction_classifies
    [of "\<lparr>coin = Some ''BTC'', szi = Some (Valid (Dec (- 5) (- 1))), entryPx = None\<rparr>"
        "Dec (- 5) (- 1)"]
  by (simp add: val_def)

section \<open>Direction mismatch\<close>



section \<open>Fatal and benign ends of a run\<close>





section \<open>The activity timestamp reducer\<close>






section \<open>Digits and rounding\<close>

lemma ndigits_pos: "0 < ndigits n"
  by (subst ndigits.simps) simp

lemma ndigits_upper: "n < 10 ^ ndigits n"
proof (induction n rule: ndigits.induct)
  case (1 n)
  show ?case
  proof (cases "n < 10")
    case True
    then show ?thesis by (subst ndigits.simps) simp
  next
    case False
    with "1" have "n div 10 < 10 ^ ndigits (n div 10)" by simp
    then have "n < 10 * 10 ^ ndigits (n div 10)" by linarith
    with False show ?thesis by (subst ndigits.simps) simp
  qed
qed

lemma ndigits_lower: "0 < n \<Longrightarrow> 10 ^ (ndigits n - 1) \<le> n"
proof (induction n rule: ndigits.induct)
  case (1 n)
  show ?case
  proof (cases "n < 10")
    case True
    with "1.prems" show ?thesis by (subst ndigits.simps) simp
  next
    case False
    then have pos: "0 < n div 10" by linarith
    with "1" False have "10 ^ (ndigits (n div 10) - 1) \<le> n div 10" by simp
    then have "10 * 10 ^ (ndigits (n div 10) - 1) \<le> n" by linarith
    moreover have "ndigits (n div 10) = Suc (ndigits (n div 10) - 1)"
      using ndigits_pos [of "n div 10"] by simp
    ultimately have "10 ^ ndigits (n div 10) \<le> n"
      by (metis power_Suc)
    with False show ?thesis by (subst ndigits.simps) simp
  qed
qed

lemma ndigits_le_iff: "0 < k \<Longrightarrow> ndigits n \<le> k \<longleftrightarrow> n < 10 ^ k"
proof
  assume "0 < k" "ndigits n \<le> k"
  then have "(10::nat) ^ ndigits n \<le> 10 ^ k" by (simp add: power_increasing)
  with ndigits_upper [of n] show "n < 10 ^ k" by linarith
next
  assume k: "0 < k" and lt: "n < 10 ^ k"
  show "ndigits n \<le> k"
  proof (cases "n = 0")
    case True
    then show ?thesis using k by (subst ndigits.simps) simp
  next
    case False
    then have "10 ^ (ndigits n - 1) \<le> n" using ndigits_lower by simp
    with lt have "(10::nat) ^ (ndigits n - 1) < 10 ^ k" by linarith
    then have "ndigits n - 1 < k" by (simp add: power_less_imp_less_exp)
    then show ?thesis by linarith
  qed
qed

lemma dec_fix_id: "\<bar>coeff d\<bar> < 10 ^ 28 \<Longrightarrow> dec_fix d = d"
proof -
  assume a: "\<bar>coeff d\<bar> < 10 ^ 28"
  then have "nat \<bar>coeff d\<bar> < 10 ^ 28" by (simp add: nat_less_iff)
  then have "ndigits (nat \<bar>coeff d\<bar>) \<le> 28" using ndigits_le_iff [of 28] by simp
  then show ?thesis by (simp add: dec_fix_def prec_def Let_def)
qed

lemma val_powi: "val d = of_int (coeff d) * 10 powi expo d"
  by (simp add: val_def power_int_def field_simps)

lemma val_times_1000: "val d * 1000 = of_int (coeff d) * 10 powi (expo d + 3)"
proof -
  have "(10::rat) powi (expo d + 3) = 10 powi expo d * 10 powi 3"
    by (rule power_int_add) simp
  then show ?thesis by (simp add: val_powi)
qed

lemma floor_val_1000:
  assumes "0 \<le> coeff d"
  shows "rescale_down d (- 3) = Dec \<lfloor>val d * 1000\<rfloor> (- 3)"
proof (cases "- 3 \<le> expo d")
  case True
  then have "(10::rat) powi (expo d + 3) = of_int (10 ^ nat (expo d + 3))"
    by (simp add: power_int_def)
  then have "val d * 1000 = of_int (coeff d * 10 ^ nat (expo d + 3))"
    by (simp add: val_times_1000)
  then have "\<lfloor>val d * 1000\<rfloor> = coeff d * 10 ^ nat (expo d + 3)"
    by (simp only: floor_of_int)
  moreover have "nat (expo d - - 3) = nat (expo d + 3)" by simp
  ultimately show ?thesis using True by (simp add: rescale_down_def)
next
  case False
  then have "(10::rat) powi (expo d + 3) = inverse (of_int (10 ^ nat (- 3 - expo d)))"
  proof -
    assume "\<not> - 3 \<le> expo d"
    then have "(10::rat) powi (expo d + 3) = inverse 10 ^ nat (- (expo d + 3))"
      by (simp add: power_int_def)
    also have "- (expo d + 3) = - 3 - expo d" by simp
    also have "inverse (10::rat) ^ nat (- 3 - expo d) = inverse (10 ^ nat (- 3 - expo d))"
      by (rule power_inverse)
    finally show ?thesis by simp
  qed
  then have "val d * 1000 = of_int (coeff d) / of_int (10 ^ nat (- 3 - expo d))"
    by (simp add: val_times_1000 divide_inverse)
  then have fl: "\<lfloor>val d * 1000\<rfloor> = coeff d div 10 ^ nat (- 3 - expo d)"
    by (simp only: floor_divide_of_int_eq)
  have "sgn (coeff d) * int (nat \<bar>coeff d\<bar> div 10 ^ nat (- 3 - expo d))
        = coeff d div 10 ^ nat (- 3 - expo d)"
  proof (cases "coeff d = 0")
    case True
    then show ?thesis by simp
  next
    case False
    with assms have "0 < coeff d" by simp
    then show ?thesis by (simp add: zdiv_int)
  qed
  with fl False show ?thesis by (simp add: rescale_down_def)
qed


lemma val_less_powi_iff:
  assumes "0 < coeff d"
  shows "val d < 10 powi k \<longleftrightarrow> expo d + int (ndigits (nat (coeff d))) \<le> k"
proof
  let ?n = "ndigits (nat (coeff d))"
  assume le: "expo d + int ?n \<le> k"
  have "nat (coeff d) < 10 ^ ?n" by (rule ndigits_upper)
  then have "coeff d < 10 ^ ?n" using assms by (simp add: nat_less_iff)
  then have "(of_int (coeff d) :: rat) < of_int (10 ^ ?n)" by (simp only: of_int_less_iff)
  then have "(of_int (coeff d) :: rat) < 10 powi int ?n" by simp
  then have "of_int (coeff d) * 10 powi expo d < 10 powi int ?n * (10::rat) powi expo d"
    by (simp add: mult_strict_right_mono)
  also have "\<dots> = 10 powi (int ?n + expo d)"
    by (rule power_int_add [symmetric]) simp
  also have "\<dots> \<le> 10 powi k"
    using le by (intro power_int_increasing) simp_all
  finally show "val d < 10 powi k" by (simp add: val_powi)
next
  let ?n = "ndigits (nat (coeff d))"
  assume lt: "val d < 10 powi k"
  show "expo d + int ?n \<le> k"
  proof (rule ccontr)
    assume "\<not> expo d + int ?n \<le> k"
    then have k: "k \<le> int (?n - 1) + expo d" using ndigits_pos [of "nat (coeff d)"] by linarith
    have "10 ^ (?n - 1) \<le> nat (coeff d)" using assms by (intro ndigits_lower) simp
    then have "10 ^ (?n - 1) \<le> coeff d" using assms by (simp add: le_nat_iff)
    then have "(of_int (10 ^ (?n - 1)) :: rat) \<le> of_int (coeff d)" by (simp only: of_int_le_iff)
    then have c: "(10::rat) powi int (?n - 1) \<le> of_int (coeff d)" by simp
    have "(10::rat) powi k \<le> 10 powi (int (?n - 1) + expo d)"
      using k by (intro power_int_increasing) simp_all
    also have "\<dots> = (10::rat) powi int (?n - 1) * 10 powi expo d"
      by (rule power_int_add) simp
    also have "\<dots> \<le> of_int (coeff d) * 10 powi expo d"
      using c by (rule mult_right_mono) simp
    also have "\<dots> = val d" by (simp only: val_powi)
    finally have "(10::rat) powi k \<le> val d" .
    with lt show False by simp
  qed
qed


lemma quantize_down3_nonneg:
  assumes "0 \<le> coeff d"
  shows "quantize_down3 d =
           (if val d < 10 ^ 25 then Inr (Dec \<lfloor>val d * 1000\<rfloor> (- 3)) else Inl InvalidOperation)"
proof (cases "coeff d = 0")
  case True
  then have "val d = 0" by (simp add: val_zero_iff)
  moreover have "dec_fix (Dec 0 (- 3)) = Dec 0 (- 3)" by (rule dec_fix_id) simp
  ultimately show ?thesis using True by (simp add: quantize_down3_def)
next
  case False
  with assms have pos: "0 < coeff d" by simp
  then have abs: "\<bar>coeff d\<bar> = coeff d" by simp
  have chk: "val d < 10 ^ 25 \<longleftrightarrow> expo d + int (ndigits (nat (coeff d))) \<le> 25"
    using val_less_powi_iff [OF pos, of 25] by simp
  show ?thesis
  proof (cases "val d < 10 ^ 25")
    case True
    have nonneg: "0 \<le> val d * 1000" using pos by (simp add: val_pos_iff less_imp_le)
    have "val d * 1000 < 10 ^ 28" using True by simp
    then have "\<lfloor>val d * 1000\<rfloor> < 10 ^ 28" by (simp add: floor_less_iff)
    moreover have "0 \<le> \<lfloor>val d * 1000\<rfloor>" using nonneg by simp
    ultimately have small: "\<bar>\<lfloor>val d * 1000\<rfloor>\<bar> < 10 ^ 28" by simp
    then have "nat \<bar>\<lfloor>val d * 1000\<rfloor>\<bar> < 10 ^ 28" by (simp add: nat_less_iff)
    then have dig: "ndigits (nat \<bar>\<lfloor>val d * 1000\<rfloor>\<bar>) \<le> 28"
      using ndigits_le_iff [of 28] by simp
    have fixid: "dec_fix (Dec \<lfloor>val d * 1000\<rfloor> (- 3)) = Dec \<lfloor>val d * 1000\<rfloor> (- 3)"
      using small by (intro dec_fix_id) simp
    show ?thesis
      using True False chk dig fixid floor_val_1000 [OF assms]
      by (simp add: quantize_down3_def abs prec_def Let_def)
  next
    case no: False
    then show ?thesis
      using False chk by (simp add: quantize_down3_def abs prec_def Let_def)
  qed
qed

lemma round_half_even_bounds:
  "n div 10 ^ k \<le> round_half_even n k \<and> round_half_even n k \<le> n div 10 ^ k + 1"
  by (simp add: round_half_even_def Let_def)

lemma div_pow_lower:
  assumes "0 < n" and "ndigits n = Suc (m + k)"
  shows "(10::nat) ^ m \<le> n div 10 ^ k"
proof -
  have "(10::nat) ^ (m + k) \<le> n"
    using ndigits_lower [OF assms(1)] assms(2) by simp
  then have "(10::nat) ^ m * 10 ^ k \<le> n" by (simp only: power_add)
  then have "(10::nat) ^ m * 10 ^ k div 10 ^ k \<le> n div 10 ^ k"
    by (rule div_le_mono)
  moreover have "(10::nat) ^ m * 10 ^ k div 10 ^ k = 10 ^ m"
    by (rule nonzero_mult_div_cancel_right) simp
  ultimately show ?thesis by (simp only:)
qed


lemma div10_lower:
  assumes "(10::nat) ^ Suc m \<le> q"
  shows "(10::nat) ^ m \<le> q div 10"
proof -
  have "(10::nat) ^ Suc m div 10 \<le> q div 10" using assms by (rule div_le_mono)
  then show ?thesis by simp
qed

text \<open>The coefficient that \<open>dec_fix\<close> leaves when it rounds.\<close>

lemma dec_fix_rounds:
  assumes "coeff d \<noteq> 0" and "prec < ndigits (nat \<bar>coeff d\<bar>)"
  shows "\<exists>q. 0 < q \<and> coeff (dec_fix d) = sgn (coeff d) * int q"
proof -
  let ?n = "nat \<bar>coeff d\<bar>"
  let ?k = "ndigits ?n - prec"
  let ?q = "round_half_even ?n ?k"
  have npos: "0 < ?n" using assms(1) by simp
  have "ndigits ?n = Suc (27 + ?k)" using assms(2) by (simp add: prec_def)
  then have "(10::nat) ^ 27 \<le> ?n div 10 ^ ?k" by (rule div_pow_lower [OF npos])
  then have lower: "(10::nat) ^ 27 \<le> ?q"
    using round_half_even_bounds [of ?n ?k] by (meson order_trans)
  have p27: "(0::nat) < 10 ^ 27" by simp
  show ?thesis
  proof (cases "prec < ndigits ?q")
    case True
    then have "\<not> ndigits ?q \<le> 28" by (simp add: prec_def)
    then have "\<not> ?q < 10 ^ 28" using ndigits_le_iff [of 28 ?q] by simp
    then have "(10::nat) ^ Suc 27 \<le> ?q" by simp
    then have "(10::nat) ^ 27 \<le> ?q div 10" by (rule div10_lower)
    with p27 have "0 < ?q div 10" by (rule less_le_trans)
    moreover have "coeff (dec_fix d) = sgn (coeff d) * int (?q div 10)"
      using assms True by (simp add: dec_fix_def Let_def)
    ultimately show ?thesis by blast
  next
    case False
    from p27 lower have "0 < ?q" by (rule less_le_trans)
    moreover have "coeff (dec_fix d) = sgn (coeff d) * int ?q"
      using assms False by (simp add: dec_fix_def Let_def)
    ultimately show ?thesis by blast
  qed
qed

lemma dec_fix_coeff_sgn: "sgn (coeff (dec_fix d)) = sgn (coeff d)"
proof (cases "coeff d = 0 \<or> ndigits (nat \<bar>coeff d\<bar>) \<le> prec")
  case True
  then show ?thesis by (auto simp: dec_fix_def Let_def)
next
  case False
  then obtain q where "0 < q" and "coeff (dec_fix d) = sgn (coeff d) * int q"
    using dec_fix_rounds [of d] by auto
  then show ?thesis by (simp add: sgn_mult)
qed

lemma dec_fix_pos_iff: "0 < coeff (dec_fix d) \<longleftrightarrow> 0 < coeff d"
  using dec_fix_coeff_sgn [of d] by (simp add: sgn_if split: if_splits)

lemma dec_fix_neg_iff: "coeff (dec_fix d) < 0 \<longleftrightarrow> coeff d < 0"
  using dec_fix_coeff_sgn [of d] by (simp add: sgn_if split: if_splits)

lemma dec_fix_zero_iff: "coeff (dec_fix d) = 0 \<longleftrightarrow> coeff d = 0"
  using dec_fix_coeff_sgn [of d] by (simp add: sgn_if split: if_splits)

text \<open>A coefficient of more than \<open>prec\<close> digits whose value fits \<open>prec\<close> digits ends in zeros.\<close>

lemma trailing_zeros:
  fixes c C :: int
  assumes eq: "(of_int c :: rat) * 10 powi e = of_int C * 10 powi E"
    and C: "\<bar>C\<bar> < 10 ^ p"
    and n: "ndigits (nat \<bar>c\<bar>) = Suc (m + k)" and pm: "p \<le> Suc m"
    and c: "c \<noteq> 0"
  shows "10 ^ k dvd c"
proof -
  let ?j = "E - e"
  have p10: "(10::rat) powi e \<noteq> 0" by simp
  have "(10::rat) powi E = 10 powi ?j * 10 powi e"
    using power_int_add [of "10::rat" ?j e] by simp
  then have "(of_int c :: rat) * 10 powi e = (of_int C * 10 powi ?j) * 10 powi e"
    using eq by (simp add: mult.assoc)
  then have cj: "(of_int c :: rat) = of_int C * 10 powi ?j"
    using p10 by simp
  have low: "(10::rat) ^ (m + k) \<le> of_int \<bar>c\<bar>"
  proof -
    have "10 ^ (ndigits (nat \<bar>c\<bar>) - 1) \<le> nat \<bar>c\<bar>" using c by (intro ndigits_lower) simp
    then have "10 ^ (m + k) \<le> nat \<bar>c\<bar>" using n by simp
    then have "int (10 ^ (m + k)) \<le> \<bar>c\<bar>" by linarith
    then have "(of_int (int (10 ^ (m + k))) :: rat) \<le> of_int \<bar>c\<bar>" by (simp only: of_int_le_iff)
    then show ?thesis by simp
  qed
  have jk: "int k \<le> ?j"
  proof (rule ccontr)
    assume "\<not> int k \<le> ?j"
    then have j: "int p + ?j \<le> int (m + k)" using pm by linarith
    have "(of_int \<bar>C\<bar> :: rat) < of_int (10 ^ p)" using C by (simp only: of_int_less_iff)
    then have "(of_int \<bar>C\<bar> :: rat) < 10 powi int p" by simp
    then have "(of_int \<bar>C\<bar> :: rat) * 10 powi ?j < 10 powi int p * 10 powi ?j"
      by (rule mult_strict_right_mono) simp
    also have "\<dots> = 10 powi (int p + ?j)" by (rule power_int_add [symmetric]) simp
    also have "\<dots> \<le> 10 powi int (m + k)" using j by (intro power_int_increasing) simp_all
    also have "\<dots> = 10 ^ (m + k)" by (rule power_int_of_nat)
    finally have "(of_int \<bar>C\<bar> :: rat) * 10 powi ?j < of_int \<bar>c\<bar>" using low by simp
    moreover have "(of_int \<bar>c\<bar> :: rat) = of_int \<bar>C\<bar> * 10 powi ?j"
    proof -
      have "\<bar>of_int c :: rat\<bar> = \<bar>of_int C\<bar> * \<bar>10 powi ?j\<bar>" using cj by (simp add: abs_mult)
      then show ?thesis by simp
    qed
    ultimately show False by simp
  qed
  then have "(10::rat) powi ?j = of_int (10 ^ nat ?j)" by (simp add: power_int_def)
  then have "(of_int c :: rat) = of_int (C * 10 ^ nat ?j)" using cj by simp
  then have "c = C * 10 ^ nat ?j" by (simp only: of_int_eq_iff)
  moreover have "(10::int) ^ k dvd 10 ^ nat ?j" using jk by (intro le_imp_power_dvd) simp
  ultimately show ?thesis by simp
qed


lemma round_half_even_exact: "10 ^ k dvd n \<Longrightarrow> round_half_even n k = n div 10 ^ k"
  by (simp add: round_half_even_def Let_def dvd_eq_mod_eq_0)

text \<open>
  The context rounding leaves the value alone when the value can be written with 28
  digits.
\<close>

lemma dec_fix_val_exact:
  assumes rep: "val d = of_int C * 10 powi E" and C: "\<bar>C\<bar> < 10 ^ 28"
  shows "val (dec_fix d) = val d"
proof (cases "coeff d = 0 \<or> ndigits (nat \<bar>coeff d\<bar>) \<le> prec")
  case True
  then show ?thesis by (auto simp: dec_fix_def Let_def)
next
  case False
  let ?c = "coeff d"
  let ?n = "nat \<bar>?c\<bar>"
  let ?k = "ndigits ?n - prec"
  let ?q = "?n div 10 ^ ?k"
  from False have nz: "?c \<noteq> 0" and big: "prec < ndigits ?n" by simp_all
  have n: "ndigits ?n = Suc (27 + ?k)" using big by (simp add: prec_def)
  have eq: "(of_int ?c :: rat) * 10 powi expo d = of_int C * 10 powi E"
    using rep by (simp only: val_powi)
  have "10 ^ ?k dvd ?c"
    by (rule trailing_zeros [OF eq C n _ nz]) simp
  then have "10 ^ ?k dvd \<bar>?c\<bar>" by simp
  then have "int (10 ^ ?k) dvd int ?n" by simp
  then have dvd: "10 ^ ?k dvd ?n" by (simp only: int_dvd_int_iff)
  then have rq: "round_half_even ?n ?k = ?q" by (rule round_half_even_exact)
  have qk: "?q * 10 ^ ?k = ?n" using dvd by simp
  have n': "ndigits ?n = 28 + ?k" using n by simp
  have "(10::nat) ^ ndigits ?n = 10 ^ (28 + ?k)" by (simp only: n' [symmetric])
  then have pw: "(10::nat) ^ ndigits ?n = 10 ^ 28 * 10 ^ ?k" by (simp only: power_add)
  have "?n < 10 ^ ndigits ?n" by (rule ndigits_upper)
  then have "?q * 10 ^ ?k < 10 ^ 28 * 10 ^ ?k"
    by (simp only: qk pw)
  then have "?q < 10 ^ 28" by (simp only: mult_less_cancel2)
  then have "ndigits ?q \<le> 28" using ndigits_le_iff [of 28 ?q] by simp
  then have "\<not> prec < ndigits ?q" by (simp add: prec_def)
  then have fx: "dec_fix d = Dec (sgn ?c * int ?q) (expo d + int ?k)"
    using False rq by (simp add: dec_fix_def Let_def)
  have "val (dec_fix d) = of_int (sgn ?c * int ?q) * 10 powi (expo d + int ?k)"
    by (simp add: fx val_powi)
  also have "(10::rat) powi (expo d + int ?k) = 10 powi expo d * 10 powi int ?k"
    by (rule power_int_add) simp
  also have "(10::rat) powi int ?k = of_int (10 ^ ?k)" by simp
  also have "of_int (sgn ?c * int ?q) * (10 powi expo d * (of_int (10 ^ ?k) :: rat))
      = of_int (sgn ?c * (int ?q * 10 ^ ?k)) * 10 powi expo d"
    by (simp add: mult_ac)
  also have "int ?q * 10 ^ ?k = int (?q * 10 ^ ?k)" by simp
  also have "\<dots> = \<bar>?c\<bar>" using qk by simp
  also have "sgn ?c * \<bar>?c\<bar> = ?c" by (simp add: mult_sgn_abs)
  finally show ?thesis by (simp only: val_powi)
qed

section \<open>The order scaler\<close>

lemma val_floor3: "val (floor3 x) = of_int \<lfloor>x * 1000\<rfloor> / 1000"
  by (simp add: floor3_def val_def)

lemma floor3_bounds:
  assumes "0 \<le> x"
  shows "0 \<le> val (floor3 x)" and "val (floor3 x) \<le> x" and "x < val (floor3 x) + 1 / 1000"
proof -
  have "0 \<le> x * 1000" using assms by simp
  then have "0 \<le> \<lfloor>x * 1000\<rfloor>" by simp
  then show "0 \<le> val (floor3 x)" by (simp add: val_floor3)
  have "of_int \<lfloor>x * 1000\<rfloor> \<le> x * 1000" by (rule of_int_floor_le)
  then show "val (floor3 x) \<le> x" by (simp add: val_floor3 field_simps)
  have "x * 1000 < of_int \<lfloor>x * 1000\<rfloor> + 1" by linarith
  then show "x < val (floor3 x) + 1 / 1000" by (simp add: val_floor3 field_simps)
qed

lemma fits_prec_val: "\<bar>coeff d\<bar> < 10 ^ 28 \<Longrightarrow> fits_prec (val d)"
  unfolding fits_prec_def using val_powi by blast

lemma dec_fix_val: "fits_prec (val d) \<Longrightarrow> val (dec_fix d) = val d"
  unfolding fits_prec_def using dec_fix_val_exact by blast

lemma val_Dec_mult: "val (Dec (coeff a * coeff b) (expo a + expo b)) = val a * val b"
proof -
  have "(10::rat) powi (expo a + expo b) = 10 powi expo a * 10 powi expo b"
    by (rule power_int_add) simp
  then show ?thesis by (simp add: val_powi)
qed

lemma val_Dec_abs: "val (Dec \<bar>coeff d\<bar> (expo d)) = \<bar>val d\<bar>"
  by (simp add: val_powi abs_mult)

lemma dec_mul_val: "fits_prec (val a * val b) \<Longrightarrow> val (dec_mul a b) = val a * val b"
  unfolding dec_mul_def using dec_fix_val [of "Dec (coeff a * coeff b) (expo a + expo b)"]
  by (simp only: val_Dec_mult)

lemma dec_abs_val: "fits_prec \<bar>val d\<bar> \<Longrightarrow> val (dec_abs d) = \<bar>val d\<bar>"
  unfolding dec_abs_def using dec_fix_val [of "Dec \<bar>coeff d\<bar> (expo d)"]
  by (simp only: val_Dec_abs)

lemma dec_abs_nonneg: "0 \<le> coeff (dec_abs d)"
  using dec_fix_neg_iff [of "Dec \<bar>coeff d\<bar> (expo d)"] by (simp add: dec_abs_def)

lemma dec_mul_nonneg: "0 \<le> coeff a \<Longrightarrow> 0 \<le> coeff b \<Longrightarrow> 0 \<le> coeff (dec_mul a b)"
  using dec_fix_neg_iff [of "Dec (coeff a * coeff b) (expo a + expo b)"]
  by (simp add: dec_mul_def mult_less_0_iff)

lemma dec_mul_coeff_sgn: "sgn (coeff (dec_mul a b)) = sgn (coeff a) * sgn (coeff b)"
  by (simp add: dec_mul_def dec_fix_coeff_sgn sgn_mult)

text \<open>The body of the loop of the scaler, for a non-negative ratio.\<close>

lemma scale_order_eq:
  assumes "get_decimal (sz order) = Inr s" and "get_decimal (limitPx order) = Inr p"
    and "0 \<le> coeff r"
  shows "scale_order order r =
           (if val (dec_mul (dec_abs s) r) < 10 ^ 25 then
              Inr \<lparr>side = (case side_raw order of None \<Rightarrow> [] | Some x \<Rightarrow> x), price = p,
                   original_size = dec_abs s,
                   scaled_size = floor3 (val (dec_mul (dec_abs s) r)),
                   notional = dec_mul (floor3 (val (dec_mul (dec_abs s) r))) p\<rparr>
            else Inl InvalidOperation)"
proof -
  have "0 \<le> coeff (dec_mul (dec_abs s) r)"
    using assms(3) dec_abs_nonneg by (rule dec_mul_nonneg [rotated])
  then show ?thesis
    using assms(1,2)
    by (simp add: scale_order_def quantize_down3_nonneg floor3_def Let_def)
qed

end
